theory Spec2Isabelle
  imports Main "HOL-Library.Word"
begin

section \<open>Strings of the page\<close>

text \<open>
  A JavaScript string is a sequence of UTF-16 code units. Texts of the book are modelled
  as lists of 16-bit words; \<open>js\<close> embeds an ASCII literal. Fixed messages and the
  engine's error codes are plain ASCII and stay \<open>string\<close>.
\<close>

type_synonym jschar = "16 word"
type_synonym jsstring = "jschar list"

definition js :: "string \<Rightarrow> jsstring" where
  "js s = map (\<lambda>c. of_nat (of_char c)) s"

definition SPACE :: jschar where
  "SPACE = 0x20"

definition NEWLINE :: jschar where
  "NEWLINE = 0x0A"

text \<open>
  The class \<open>\s\<close> of a regular expression and the characters removed by
  \<open>String.prototype.trim\<close> are the same set: WhiteSpace and LineTerminator of
  ECMAScript (TAB, LF, VT, FF, CR, SP, NBSP, the Unicode space separators, LS, PS, BOM).
\<close>

definition isWhiteSpace :: "jschar \<Rightarrow> bool" where
  "isWhiteSpace c \<longleftrightarrow>
     c = 0x09 \<or> c = 0x0A \<or> c = 0x0B \<or> c = 0x0C \<or> c = 0x0D \<or> c = 0x20 \<or> c = 0xA0 \<or>
     c = 0x1680 \<or> (0x2000 \<le> c \<and> c \<le> 0x200A) \<or> c = 0x2028 \<or> c = 0x2029 \<or>
     c = 0x202F \<or> c = 0x205F \<or> c = 0x3000 \<or> c = 0xFEFF"

text \<open>The class \<open>[.!?]\<close>.\<close>

definition isTerminator :: "jschar \<Rightarrow> bool" where
  "isTerminator c \<longleftrightarrow> c = 0x2E \<or> c = 0x21 \<or> c = 0x3F"

text \<open>\<open>text.replace(/\s+/g, ' ')\<close>: every maximal run of white space becomes one space.\<close>

function collapse :: "jsstring \<Rightarrow> jsstring" where
  "collapse [] = []"
| "collapse (c # cs) =
     (if isWhiteSpace c then SPACE # collapse (dropWhile isWhiteSpace cs)
      else c # collapse cs)"
  by pat_completeness auto
termination
  by (relation "measure length") (auto simp: less_Suc_eq_le length_dropWhile_le)

text \<open>\<open>s.trim()\<close>.\<close>

definition trim :: "jsstring \<Rightarrow> jsstring" where
  "trim s = rev (dropWhile isWhiteSpace (rev (dropWhile isWhiteSpace s)))"

text \<open>Line 35: \<open>cleanedText = text.replace(/\s+/g, ' ').trim()\<close>.\<close>

definition normalize :: "jsstring \<Rightarrow> jsstring" where
  "normalize s = trim (collapse s)"

text \<open>
  \<open>s.substring(a, b)\<close> on indices that are natural numbers: the arguments are swapped
  when \<open>a > b\<close> and clamped to the length, which \<open>take\<close> and \<open>drop\<close> do.
\<close>

definition substring :: "jsstring \<Rightarrow> nat \<Rightarrow> nat \<Rightarrow> jsstring" where
  "substring s a b = take (max a b - min a b) (drop (min a b) s)"

text \<open>\<open>parts.join(' ')\<close>.\<close>

fun joinSp :: "jsstring list \<Rightarrow> jsstring" where
  "joinSp [] = []"
| "joinSp [x] = x"
| "joinSp (x # y # ys) = x @ SPACE # joinSp (y # ys)"

section \<open>The segmenter: splitIntoSentences\<close>

record Sentence =
  text' :: jsstring
  startIndex :: int
  endIndex :: int

text \<open>
  The regular expression \<open>/([.!?]+)\s+/g\<close>. At a fixed position it matches when a run of
  terminators starts there and white space follows the whole run: both quantifiers are
  greedy, and giving back a terminator never helps, since the character after a shorter
  run is a terminator and not white space. \<open>matchAt\<close> returns the lengths of group 1
  and of the whole match.
\<close>

definition matchAt :: "jsstring \<Rightarrow> (nat \<times> nat) option" where
  "matchAt s =
     (let g = takeWhile isTerminator s;
          w = takeWhile isWhiteSpace (dropWhile isTerminator s)
      in if g \<noteq> [] \<and> w \<noteq> [] then Some (length g, length g + length w) else None)"

text \<open>The leftmost match in the rest of the string, the rest starting at index \<open>i\<close>.\<close>

fun execFrom :: "jsstring \<Rightarrow> nat \<Rightarrow> (nat \<times> nat \<times> nat) option" where
  "execFrom [] i = None"
| "execFrom (c # cs) i =
     (case matchAt (c # cs) of
        Some (g, m) \<Rightarrow> Some (i, g, m)
      | None \<Rightarrow> execFrom cs (Suc i))"

text \<open>
  \<open>sentenceEndings.exec(cleanedText)\<close> with the expression's \<open>lastIndex\<close> given: the
  result is \<open>(match.index, match[1].length, match[0].length)\<close>, or \<open>None\<close> for
  \<open>null\<close>.
\<close>

definition sentenceEndings_exec :: "jsstring \<Rightarrow> nat \<Rightarrow> (nat \<times> nat \<times> nat) option" where
  "sentenceEndings_exec s lastIndex =
     (if length s < lastIndex then None else execFrom (drop lastIndex s) lastIndex)"

text \<open>
  Lines 49-56 and 62-69: the trimmed substring is pushed with the offsets of the
  untrimmed one, unless it is empty.
\<close>

definition pushSentence :: "jsstring \<Rightarrow> nat \<Rightarrow> nat \<Rightarrow> Sentence list \<Rightarrow> Sentence list" where
  "pushSentence cleanedText a b sentences =
     (let sentenceText = trim (substring cleanedText a b)
      in if length sentenceText > 0
         then sentences @ [\<lparr>text' = sentenceText, startIndex = int a, endIndex = int b\<rparr>]
         else sentences)"

lemma matchAt_Some:
  assumes "matchAt s = Some (g, m)"
  shows "g = length (takeWhile isTerminator s)"
    and "m = g + length (takeWhile isWhiteSpace (drop g s))"
    and "0 < g" and "g < m" and "m \<le> length s"
proof -
  let ?g = "takeWhile isTerminator s"
  let ?w = "takeWhile isWhiteSpace (dropWhile isTerminator s)"
  from assms have ne: "?g \<noteq> []" "?w \<noteq> []" and g: "g = length ?g" and m: "m = length ?g + length ?w"
    by (auto simp: matchAt_def Let_def split: if_splits)
  show "g = length ?g" by (rule g)
  have dw: "dropWhile isTerminator s = drop g s"
    by (simp add: g dropWhile_eq_drop)
  show "m = g + length (takeWhile isWhiteSpace (drop g s))"
    using m g dw by simp
  show "0 < g" using ne g by simp
  show "g < m" using ne m g by simp
  have "length ?w \<le> length (dropWhile isTerminator s)"
    by (rule length_takeWhile_le)
  moreover have "length ?g + length (dropWhile isTerminator s) = length s"
    by (metis length_append takeWhile_dropWhile_id)
  ultimately show "m \<le> length s" using m by simp
qed

lemma execFrom_Some:
  "execFrom r k = Some (i, g, m) \<Longrightarrow>
     k \<le> i \<and> i - k \<le> length r \<and> matchAt (drop (i - k) r) = Some (g, m)"
proof (induction r arbitrary: k)
  case Nil
  then show ?case by simp
next
  case (Cons c cs)
  show ?case
  proof (cases "matchAt (c # cs)")
    case None
    with Cons.prems have "execFrom cs (Suc k) = Some (i, g, m)" by simp
    from Cons.IH [OF this]
    have "Suc k \<le> i" "i - Suc k \<le> length cs" "matchAt (drop (i - Suc k) cs) = Some (g, m)"
      by simp_all
    moreover from \<open>Suc k \<le> i\<close> have "i - k = Suc (i - Suc k)" by simp
    ultimately show ?thesis by simp
  next
    case (Some gm)
    with Cons.prems show ?thesis by (cases gm) auto
  qed
qed

lemma exec_Some:
  assumes "sentenceEndings_exec s l = Some (i, g, m)"
  shows "l \<le> i" and "i \<le> length s" and "matchAt (drop i s) = Some (g, m)"
proof -
  from assms have l: "l \<le> length s" and e: "execFrom (drop l s) l = Some (i, g, m)"
    by (auto simp: sentenceEndings_exec_def split: if_splits)
  from execFrom_Some [OF e]
  have *: "l \<le> i" "i - l \<le> length (drop l s)"
    and **: "matchAt (drop (i - l) (drop l s)) = Some (g, m)"
    by blast+
  show "l \<le> i" by (rule *)
  show "i \<le> length s" using * l by simp
  from *(1) have "i - l + l = i" by simp
  with ** show "matchAt (drop i s) = Some (g, m)" by simp
qed

lemma exec_bounds:
  assumes "sentenceEndings_exec s l = Some (i, g, m)"
  shows "l \<le> i" and "0 < g" and "g < m" and "i + m \<le> length s"
proof -
  note e = exec_Some [OF assms]
  note a = matchAt_Some [OF e(3)]
  show "l \<le> i" by (rule e)
  show "0 < g" by (rule a)
  show "g < m" by (rule a)
  from a(5) e(2) show "i + m \<le> length s" by simp
qed

lemma exec_decreases:
  assumes "sentenceEndings_exec s l = Some (i, g, m)"
  shows "length s - (i + m) < length s - l"
  using exec_bounds [OF assms] by simp

text \<open>
  Lines 48-58, the \<open>while\<close> loop. The expression's own \<open>lastIndex\<close> and the variable
  \<open>lastIndex\<close> both start at 0 and both receive \<open>match.index + match[0].length\<close> in
  every iteration, so one argument stands for both. The loop returns the sentences and
  the final \<open>lastIndex\<close>.
\<close>

function splitLoop :: "jsstring \<Rightarrow> nat \<Rightarrow> Sentence list \<Rightarrow> Sentence list \<times> nat" where
  "splitLoop cleanedText lastIndex sentences =
     (case sentenceEndings_exec cleanedText lastIndex of
        None \<Rightarrow> (sentences, lastIndex)
      | Some (i, g, m) \<Rightarrow>
          splitLoop cleanedText (i + m) (pushSentence cleanedText lastIndex (i + g) sentences))"
  by pat_completeness auto
termination
  by (relation "measure (\<lambda>(s, l, acc). length s - l)") (auto simp: exec_decreases)

declare splitLoop.simps [simp del]

text \<open>\<open>cleanedText.split(/\n+/)\<close>: the pieces between maximal runs of line feeds.\<close>

function splitLines :: "jsstring \<Rightarrow> jsstring \<Rightarrow> jsstring list" where
  "splitLines cur [] = [rev cur]"
| "splitLines cur (c # cs) =
     (if c = NEWLINE then rev cur # splitLines [] (dropWhile (\<lambda>d. d = NEWLINE) cs)
      else splitLines (c # cur) cs)"
  by pat_completeness auto
termination
  by (relation "measure (\<lambda>(cur, s). length s)") (auto simp: less_Suc_eq_le length_dropWhile_le)

text \<open>
  \<open>hay.indexOf(needle, from)\<close>: the first position at or after \<open>from\<close> where the needle
  starts, or -1. A negative \<open>from\<close> counts as 0.
\<close>

fun indexOfFrom :: "jsstring \<Rightarrow> jsstring \<Rightarrow> nat \<Rightarrow> int" where
  "indexOfFrom [] needle p = (if needle = [] then int p else - 1)"
| "indexOfFrom (h # hs) needle p =
     (if take (length needle) (h # hs) = needle then int p
      else indexOfFrom hs needle (Suc p))"

definition indexOf :: "jsstring \<Rightarrow> jsstring \<Rightarrow> int \<Rightarrow> int" where
  "indexOf hay needle from =
     (let p = min (nat (max 0 from)) (length hay) in indexOfFrom (drop p hay) needle p)"

text \<open>Lines 76-88, the \<open>forEach\<close> over the lines.\<close>

fun linesLoop :: "jsstring \<Rightarrow> jsstring list \<Rightarrow> int \<Rightarrow> Sentence list \<Rightarrow> Sentence list" where
  "linesLoop cleanedText [] currentIndex sentences = sentences"
| "linesLoop cleanedText (line # rest) currentIndex sentences =
     (let trimmedLine = trim line
      in if length trimmedLine > 0
         then (let start = indexOf cleanedText trimmedLine currentIndex
               in linesLoop cleanedText rest (start + int (length trimmedLine))
                    (sentences @ [\<lparr>text' = trimmedLine, startIndex = start,
                                   endIndex = start + int (length trimmedLine)\<rparr>]))
         else linesLoop cleanedText rest currentIndex sentences)"

text \<open>Lines 72-96, entered when no sentence was found.\<close>

definition lineFallback :: "jsstring \<Rightarrow> Sentence list" where
  "lineFallback cleanedText =
     (let lines = filter (\<lambda>line. length (trim line) > 0) (splitLines [] cleanedText)
      in if length lines > 1 then linesLoop cleanedText lines 0 []
         else [\<lparr>text' = cleanedText, startIndex = 0, endIndex = int (length cleanedText)\<rparr>])"

text \<open>Lines 33-99.\<close>

definition splitIntoSentences :: "jsstring \<Rightarrow> Sentence list" where
  "splitIntoSentences txt =
     (let cleanedText = normalize txt
      in if cleanedText = [] then []
         else (case splitLoop cleanedText 0 [] of
                 (found, lastIndex) \<Rightarrow>
                   (let sentences =
                          (if lastIndex < length cleanedText
                           then pushSentence cleanedText lastIndex (length cleanedText) found
                           else found)
                    in if length sentences = 0 then lineFallback cleanedText
                       else sentences)))"

section \<open>The narration coordinator: handlePlay, handleSentenceClick and the callbacks\<close>

text \<open>An element of \<open>sentenceStartIndices\<close> (lines 391-395 and 546-550).\<close>

record Entry =
  index :: int
  charStart :: nat

text \<open>
  A \<open>SpeechSynthesisUtterance\<close> with what its callbacks close over: the index the
  narration starts from and the table of start offsets.
\<close>

record Utterance =
  utext :: jsstring
  lang :: string
  rate :: nat
  pitch :: nat
  startFrom :: int
  sentenceStartIndices :: "Entry list"

text \<open>
  \<open>window.speechSynthesis\<close>, the browser's engine, as far as the page reads and drives
  it: the flags \<open>speaking\<close> and \<open>paused\<close>, the number of voices, and the utterances handed
  to \<open>speak\<close> and not removed by \<open>cancel\<close>. As the Web Speech API describes them,
  \<open>pause\<close> and \<open>resume\<close> set and clear \<open>paused\<close>, \<open>cancel\<close> empties the queue and stops
  the speech without touching \<open>paused\<close>, and \<open>speak\<close> appends to the queue. When the engine
  delivers its events is not modelled: each callback is a function of its own.
\<close>

record SpeechSynthesis =
  speaking :: bool
  paused :: bool
  voices :: nat
  queue :: "Utterance list"

definition synth_pause :: "SpeechSynthesis \<Rightarrow> SpeechSynthesis" where
  "synth_pause e = e\<lparr>paused := True\<rparr>"

definition synth_resume :: "SpeechSynthesis \<Rightarrow> SpeechSynthesis" where
  "synth_resume e = e\<lparr>paused := False\<rparr>"

definition synth_cancel :: "SpeechSynthesis \<Rightarrow> SpeechSynthesis" where
  "synth_cancel e = e\<lparr>speaking := False, queue := []\<rparr>"

definition synth_speak :: "Utterance \<Rightarrow> SpeechSynthesis \<Rightarrow> SpeechSynthesis" where
  "synth_speak u e = e\<lparr>queue := queue e @ [u]\<rparr>"

text \<open>
  The callback of \<open>setTimeout\<close> in \<open>handleSentenceClick\<close> closes over the text to read,
  the index and the sentences of the render that scheduled it.
\<close>

record Timeout =
  ttext :: jsstring
  tindex :: int
  tsentences :: "Sentence list"

text \<open>
  The state of the component (\<open>useState\<close>, \<open>useRef\<close>), the engine, and what is pending:
  the timeouts not yet fired and the utterances waiting for \<open>voiceschanged\<close>. Two logs
  record effects: the messages given to \<open>setError\<close> and the sentences scrolled into view.
  \<open>speechSynthesisInWindow\<close> is the test \<open>'speechSynthesis' in window\<close>: where it fails,
  \<open>window.speechSynthesis\<close> is \<open>undefined\<close>, the field \<open>speechSynthesis\<close> stands for nothing
  and reading a property of the engine throws.
\<close>

record state =
  sentences :: "Sentence list"
  isPlaying :: bool
  currentSentenceIndex :: "int option"
  error :: "string option"
  utteranceRef :: "Utterance option"
  speechSynthesis :: SpeechSynthesis
  speechSynthesisInWindow :: bool
  timeouts :: "Timeout list"
  voicesChangedListeners :: "Utterance list"
  errorLog :: "string list"
  scrolledTo :: "int list"

definition setError :: "string \<Rightarrow> state \<Rightarrow> state" where
  "setError msg s = s\<lparr>error := Some msg, errorLog := errorLog s @ [msg]\<rparr>"

text \<open>\<open>xs.slice(start)\<close>: a negative start counts from the end.\<close>

definition sliceFrom :: "'a list \<Rightarrow> int \<Rightarrow> 'a list" where
  "sliceFrom xs start =
     (if start < 0 then drop (nat (int (length xs) + start)) xs else drop (nat start) xs)"

text \<open>Lines 374 and 518: \<open>sentences.slice(i).map(s => s.text).join(' ').trim()\<close>.\<close>

definition textToRead :: "Sentence list \<Rightarrow> int \<Rightarrow> jsstring" where
  "textToRead ss i = trim (joinSp (map text' (sliceFrom ss i)))"

text \<open>
  Lines 390-395 and 545-550: the \<open>map\<close> with its running \<open>charCount\<close>; \<open>idx\<close> is the
  position in the slice.
\<close>

fun startIndices :: "Sentence list \<Rightarrow> int \<Rightarrow> nat \<Rightarrow> nat \<Rightarrow> Entry list" where
  "startIndices [] start idx charCount = []"
| "startIndices (s # ss) start idx charCount =
     \<lparr>index = start + int idx, charStart = charCount\<rparr>
       # startIndices ss start (Suc idx) (charCount + (length (text' s) + 1))"

definition newUtterance :: "Sentence list \<Rightarrow> jsstring \<Rightarrow> int \<Rightarrow> Utterance" where
  "newUtterance ss txt start =
     \<lparr>utext = txt, lang = ''en-US'', rate = 1, pitch = 1, startFrom = start,
      sentenceStartIndices = startIndices (sliceFrom ss start) start 0 0\<rparr>"

text \<open>
  Lines 403-417 and 557-570: the table is scanned from its last entry down, and the first
  entry whose start is at or before the offset gives the index. \<open>scanBack\<close> takes the
  table reversed.
\<close>

fun scanBack :: "Entry list \<Rightarrow> nat \<Rightarrow> int option" where
  "scanBack [] currentCharIndex = None"
| "scanBack (e # es) currentCharIndex =
     (if currentCharIndex \<ge> charStart e then Some (index e) else scanBack es currentCharIndex)"

definition resolve :: "Entry list \<Rightarrow> nat \<Rightarrow> int option" where
  "resolve table currentCharIndex = scanBack (rev table) currentCharIndex"

text \<open>
  \<open>utterance.onboundary\<close>, with \<open>event.name\<close> and \<open>event.charIndex\<close>. The element
  \<open>sentenceRefs.current[i]\<close> exists for the rendered sentences.
\<close>

definition onboundary :: "Utterance \<Rightarrow> string \<Rightarrow> nat \<Rightarrow> state \<Rightarrow> state" where
  "onboundary u name charIndex s =
     (if name = ''word'' \<or> name = ''sentence''
      then (case resolve (sentenceStartIndices u) charIndex of
              None \<Rightarrow> s
            | Some i \<Rightarrow>
                s\<lparr>currentSentenceIndex := Some i,
                  scrolledTo := (if 0 \<le> i \<and> i < int (length (sentences s))
                                 then scrolledTo s @ [i] else scrolledTo s)\<rparr>)
      else s)"

definition onend :: "state \<Rightarrow> state" where
  "onend s = s\<lparr>isPlaying := False, currentSentenceIndex := None\<rparr>"

text \<open>
  \<open>utterance.onerror\<close>, with \<open>event.error\<close>: \<open>None\<close> is \<open>undefined\<close>. The value is falsy
  when it is \<open>undefined\<close> or the empty string.
\<close>

definition falsy :: "string option \<Rightarrow> bool" where
  "falsy e \<longleftrightarrow> e = None \<or> e = Some []"

definition isCancellation :: "string option \<Rightarrow> bool" where
  "isCancellation e \<longleftrightarrow> falsy e \<or> e = Some ''canceled'' \<or> e = Some ''interrupted''"

definition onerror :: "string option \<Rightarrow> state \<Rightarrow> state" where
  "onerror e s =
     (if isCancellation e then s\<lparr>isPlaying := False, currentSentenceIndex := None\<rparr>
      else (setError (''Speech synthesis error: '' @
                        (case e of None \<Rightarrow> ''Unknown error''
                         | Some c \<Rightarrow> if c = [] then ''Unknown error'' else c)) s)
             \<lparr>isPlaying := False, currentSentenceIndex := None\<rparr>)"

definition onstart :: "Utterance \<Rightarrow> state \<Rightarrow> state" where
  "onstart u s = s\<lparr>currentSentenceIndex := Some (startFrom u), isPlaying := True\<rparr>"

text \<open>
  Lines 472-484 and 625-637: without voices the utterance waits for \<open>voiceschanged\<close>,
  otherwise the engine is cancelled and the utterance spoken.
\<close>

definition cancelAndSpeak :: "Utterance \<Rightarrow> state \<Rightarrow> state" where
  "cancelAndSpeak u s = s\<lparr>speechSynthesis := synth_speak u (synth_cancel (speechSynthesis s))\<rparr>"

definition speakWhenReady :: "Utterance \<Rightarrow> state \<Rightarrow> state" where
  "speakWhenReady u s =
     (if voices (speechSynthesis s) = 0
      then s\<lparr>voicesChangedListeners := voicesChangedListeners s @ [u]\<rparr>
      else cancelAndSpeak u s)"

text \<open>
  The event \<open>voiceschanged\<close> is the engine's: every listener runs once, in the order of
  registration; without an engine there is no event.
\<close>

definition voiceschanged :: "state \<Rightarrow> state" where
  "voiceschanged s =
     (if speechSynthesisInWindow s
      then fold cancelAndSpeak (voicesChangedListeners s) (s\<lparr>voicesChangedListeners := []\<rparr>)
      else s)"

text \<open>
  Lines 380-488 and 533-641, the same code twice: inside \<open>try\<close>, a new utterance with its
  callbacks is stored in \<open>utteranceRef\<close> and spoken. Where the browser has no engine it
  has no constructor \<open>SpeechSynthesisUtterance\<close> either: line 381 (534) throws before
  \<open>utteranceRef\<close> is assigned, and \<open>catch\<close> reports it (lines 485-488, 638-641). With
  an engine, the constructor and \<open>speak\<close> are taken not to throw.
\<close>

definition startNarration :: "Sentence list \<Rightarrow> jsstring \<Rightarrow> int \<Rightarrow> state \<Rightarrow> state" where
  "startNarration ss txt start s =
     (if \<not> speechSynthesisInWindow s
      then setError ''Failed to start speech synthesis. Please try again.'' s
      else (let utterance = newUtterance ss txt start
            in speakWhenReady utterance (s\<lparr>utteranceRef := Some utterance\<rparr>)))"

text \<open>
  A handler that reads a property of \<open>window.speechSynthesis\<close> in a browser without the
  engine throws a \<open>TypeError\<close>. Both handlers do so before they call any setter, so the
  state is then as it was: the result is the error alone.
\<close>

datatype jsError = TypeError

text \<open>
  Lines 341-489. Line 348 reads \<open>.paused\<close> when \<open>isPlaying\<close> does not hold (the \<open>&&\<close>
  stops at its first false operand), line 357 reads \<open>.speaking\<close> when it does; the test
  of line 367 comes after both.
\<close>

definition handlePlay :: "state \<Rightarrow> jsError + state" where
  "handlePlay s =
     (if length (sentences s) = 0
      then Inr (setError ''Please upload and parse an EPUB file first'' s)
      else if \<not> isPlaying s \<and> \<not> speechSynthesisInWindow s
      then Inl TypeError
      else if \<not> isPlaying s \<and> paused (speechSynthesis s) \<and> currentSentenceIndex s \<noteq> None
      then Inr (s\<lparr>speechSynthesis := synth_resume (speechSynthesis s), isPlaying := True\<rparr>)
      else if isPlaying s
      then (if \<not> speechSynthesisInWindow s then Inl TypeError
            else Inr (s\<lparr>speechSynthesis :=
                          (if speaking (speechSynthesis s) then synth_pause (speechSynthesis s)
                           else speechSynthesis s),
                        isPlaying := False\<rparr>))
      else if \<not> speechSynthesisInWindow s
      then Inr (setError ''Speech synthesis is not supported in this browser'' s)
      else (let start = (case currentSentenceIndex s of Some i \<Rightarrow> i | None \<Rightarrow> 0);
                txt = textToRead (sentences s) start
            in if txt = [] then Inr s
               else Inr (startNarration (sentences s) txt start s)))"

text \<open>Lines 532-642, the callback of the timeout.\<close>

definition timeoutCallback :: "Timeout \<Rightarrow> state \<Rightarrow> state" where
  "timeoutCallback t s = startNarration (tsentences t) (ttext t) (tindex t) s"

definition fireTimeout :: "state \<Rightarrow> state" where
  "fireTimeout s =
     (case timeouts s of
        [] \<Rightarrow> s
      | t # ts \<Rightarrow> timeoutCallback t (s\<lparr>timeouts := ts\<rparr>))"

text \<open>
  Lines 491-643. Line 494 reads \<open>.speaking\<close> when the clicked sentence is the current one
  of a playing narration, and line 511 reads it on every path that goes on; the test of
  line 526 comes after both.
\<close>

definition handleSentenceClick :: "state \<Rightarrow> int \<Rightarrow> jsError + state" where
  "handleSentenceClick s i =
     (if isPlaying s \<and> currentSentenceIndex s = Some i \<and> \<not> speechSynthesisInWindow s
      then Inl TypeError
      else if isPlaying s \<and> currentSentenceIndex s = Some i
         \<and> speaking (speechSynthesis s) \<and> \<not> paused (speechSynthesis s)
      then Inr (s\<lparr>speechSynthesis := synth_pause (speechSynthesis s), isPlaying := False\<rparr>)
      else if isPlaying s \<and> currentSentenceIndex s = Some i \<and> paused (speechSynthesis s)
      then Inr (s\<lparr>speechSynthesis := synth_resume (speechSynthesis s), isPlaying := True\<rparr>)
      else if \<not> speechSynthesisInWindow s
      then Inl TypeError
      else (let s1 = s\<lparr>speechSynthesis :=
                         (if speaking (speechSynthesis s) then synth_cancel (speechSynthesis s)
                          else speechSynthesis s),
                       isPlaying := False, currentSentenceIndex := None\<rparr>;
                txt = textToRead (sentences s) i
            in if txt = [] then Inr s1
               else if \<not> speechSynthesisInWindow s
               then Inr (setError ''Speech synthesis is not supported in this browser'' s1)
               else Inr (s1\<lparr>timeouts := timeouts s1 @
                              [\<lparr>ttext = txt, tindex = i, tsentences = sentences s\<rparr>]\<rparr>)))"

text \<open>
  The playback states of the specification as the component holds them. Playing is the
  flag \<open>isPlaying\<close>, which \<open>onstart\<close> sets and \<open>handlePlay\<close> tests (line 355); the page
  then shows Pause. Paused is the flag cleared with an index kept, where the page shows
  Resume; Idle is the flag cleared with no index, where it shows Play. What the engine
  itself reports is a separate matter, stated where a handler depends on it.
\<close>

definition Playing :: "state \<Rightarrow> bool" where
  "Playing s \<longleftrightarrow> isPlaying s"

definition Paused :: "state \<Rightarrow> bool" where
  "Paused s \<longleftrightarrow> \<not> isPlaying s \<and> currentSentenceIndex s \<noteq> None"

definition Idle :: "state \<Rightarrow> bool" where
  "Idle s \<longleftrightarrow> \<not> isPlaying s \<and> currentSentenceIndex s = None"

text \<open>The invariant of the data model: an index that is set is an index of a sentence.\<close>

definition indexValid :: "state \<Rightarrow> bool" where
  "indexValid s \<longleftrightarrow>
     (case currentSentenceIndex s of
        None \<Rightarrow> True
      | Some c \<Rightarrow> 0 \<le> c \<and> c < int (length (sentences s)))"

section \<open>Auxiliary notions of the proofs\<close>

definition sentenceAt :: "jsstring \<Rightarrow> nat \<Rightarrow> nat \<Rightarrow> Sentence" where
  "sentenceAt s a b = \<lparr>text' = substring s a b, startIndex = int a, endIndex = int b\<rparr>"

definition segmentClean :: "jsstring \<Rightarrow> Sentence list" where
  "segmentClean s =
     (case splitLoop s 0 [] of
        (found, lastIndex) \<Rightarrow>
          if lastIndex < length s then pushSentence s lastIndex (length s) found else found)"

fun spaced :: "jsstring \<Rightarrow> bool" where
  "spaced [] = True"
| "spaced (c # cs) =
     ((isWhiteSpace c \<longrightarrow> c = SPACE \<and> (cs = [] \<or> \<not> isWhiteSpace (hd cs))) \<and> spaced cs)"

definition delimits :: "jsstring \<Rightarrow> Sentence \<Rightarrow> bool" where
  "delimits s u \<longleftrightarrow>
     0 \<le> startIndex u \<and> startIndex u < endIndex u \<and> endIndex u \<le> int (length s) \<and>
     text' u = substring s (nat (startIndex u)) (nat (endIndex u)) \<and>
     endIndex u - startIndex u = int (length (text' u))"

definition apart :: "Sentence list \<Rightarrow> bool" where
  "apart us \<longleftrightarrow> (\<forall>i j. i < j \<and> j < length us \<longrightarrow> endIndex (us ! i) \<le> startIndex (us ! j))"

definition inOrder :: "nat \<Rightarrow> Sentence list \<Rightarrow> bool" where
  "inOrder l acc \<longleftrightarrow>
     sorted (map startIndex acc) \<and> apart acc \<and>
     (\<forall>u\<in>set acc. startIndex u < endIndex u \<and> endIndex u \<le> int l \<and> trim (text' u) \<noteq> [])"

definition joined :: "jsstring \<Rightarrow> nat \<Rightarrow> Sentence list \<Rightarrow> bool" where
  "joined s l acc \<longleftrightarrow>
     (acc = [] \<and> l = 0) \<or> (acc \<noteq> [] \<and> joinSp (map text' acc) @ [SPACE] = take l s)"

definition exampleDoc :: jsstring where
  "exampleDoc = js ''Hi there.  Bye''"

definition exampleSentences :: "Sentence list" where
  "exampleSentences =
     [\<lparr>text' = js ''Hi there.'', startIndex = 0, endIndex = 9\<rparr>,
      \<lparr>text' = js ''Bye'', startIndex = 10, endIndex = 13\<rparr>]"

definition exampleUtterance :: Utterance where
  "exampleUtterance = newUtterance exampleSentences (textToRead exampleSentences 0) 0"

definition examplePlaying :: state where
  "examplePlaying =
     \<lparr>sentences = exampleSentences, isPlaying = True, currentSentenceIndex = Some 0,
      error = None, utteranceRef = Some exampleUtterance,
      speechSynthesis = \<lparr>speaking = True, paused = False, voices = 1, queue = [exampleUtterance]\<rparr>,
      speechSynthesisInWindow = True, timeouts = [], voicesChangedListeners = [],
      errorLog = [], scrolledTo = []\<rparr>"

text \<open>
  Three more states of the page over the same sentences: playing by the flag while the
  engine is silent, playing by the flag while the engine is paused, and a narration from
  the second sentence about to end.
\<close>

definition exampleSilent :: state where
  "exampleSilent =
     \<lparr>sentences = exampleSentences, isPlaying = True, currentSentenceIndex = Some 0,
      error = None, utteranceRef = None,
      speechSynthesis = \<lparr>speaking = False, paused = False, voices = 1, queue = []\<rparr>,
      speechSynthesisInWindow = True, timeouts = [], voicesChangedListeners = [],
      errorLog = [], scrolledTo = []\<rparr>"

definition exampleEnginePaused :: state where
  "exampleEnginePaused =
     \<lparr>sentences = exampleSentences, isPlaying = True, currentSentenceIndex = Some 0,
      error = None, utteranceRef = None,
      speechSynthesis = \<lparr>speaking = True, paused = True, voices = 1, queue = []\<rparr>,
      speechSynthesisInWindow = True, timeouts = [], voicesChangedListeners = [],
      errorLog = [], scrolledTo = []\<rparr>"

definition exampleEnding :: state where
  "exampleEnding =
     \<lparr>sentences = exampleSentences, isPlaying = True, currentSentenceIndex = Some 1,
      error = None, utteranceRef = None,
      speechSynthesis = \<lparr>speaking = False, paused = False, voices = 1, queue = []\<rparr>,
      speechSynthesisInWindow = True, timeouts = [], voicesChangedListeners = [],
      errorLog = [], scrolledTo = []\<rparr>"

section \<open>Properties of the segmenter and of the offset table\<close>

lemma terminator_not_ws: "isTerminator c \<Longrightarrow> \<not> isWhiteSpace c"
  by (auto simp: isTerminator_def isWhiteSpace_def)

lemma ws_SPACE: "isWhiteSpace SPACE"
  by (simp add: isWhiteSpace_def SPACE_def)

subsection \<open>trim\<close>

lemma trim_id:
  assumes "s \<noteq> []" and "\<not> isWhiteSpace (hd s)" and "\<not> isWhiteSpace (last s)"
  shows "trim s = s"
proof -
  have "dropWhile isWhiteSpace s = s"
    using assms by (simp add: dropWhile_eq_self_iff)
  moreover have "dropWhile isWhiteSpace (rev s) = rev s"
    using assms by (simp add: dropWhile_eq_self_iff hd_rev)
  ultimately show ?thesis by (simp add: trim_def)
qed

lemma trim_trimmed:
  assumes "trim s \<noteq> []"
  shows "\<not> isWhiteSpace (hd (trim s))" and "\<not> isWhiteSpace (last (trim s))"
proof -
  let ?d = "dropWhile isWhiteSpace s"
  let ?e = "dropWhile isWhiteSpace (rev ?d)"
  have t: "trim s = rev ?e" by (simp add: trim_def)
  with assms have e: "?e \<noteq> []" by simp
  have "dropWhile isWhiteSpace (rev []) = ([]::jsstring)" by simp
  with e have d: "?d \<noteq> []" by metis
  from e have "\<not> isWhiteSpace (hd ?e)" by (rule hd_dropWhile)
  then show "\<not> isWhiteSpace (last (trim s))" by (simp add: t last_rev)
  have "rev ?d = takeWhile isWhiteSpace (rev ?d) @ ?e" by simp
  then have "last (rev ?d) = last ?e" using e by (metis last_appendR)
  then have "last ?e = hd ?d" by (simp add: last_rev)
  moreover from d have "\<not> isWhiteSpace (hd ?d)" by (rule hd_dropWhile)
  ultimately show "\<not> isWhiteSpace (hd (trim s))" by (simp add: t hd_rev)
qed

lemma trim_idem: "trim (trim s) = trim s"
proof (cases "trim s = []")
  case True
  have "trim [] = []" by (simp add: trim_def)
  with True show ?thesis by simp
next
  case False
  then show ?thesis by (simp add: trim_id trim_trimmed)
qed

lemma trim_nonempty:
  assumes "s \<noteq> []" and "\<not> isWhiteSpace (hd s)"
  shows "trim s \<noteq> []"
proof -
  have d: "dropWhile isWhiteSpace s = s"
    using assms by (simp add: dropWhile_eq_self_iff)
  have "\<exists>x\<in>set (rev s). \<not> isWhiteSpace x"
    using assms by (cases s) auto
  then have "dropWhile isWhiteSpace (rev s) \<noteq> []" by simp
  then show ?thesis by (simp add: trim_def d)
qed

subsection \<open>substring\<close>

lemma substring_le:
  assumes "a \<le> b"
  shows "substring s a b = take (b - a) (drop a s)"
  using assms by (simp add: substring_def min_def max_def)

lemma substring_props:
  assumes "a < b" and "b \<le> length s"
  shows "length (substring s a b) = b - a"
    and "substring s a b \<noteq> []"
    and "hd (substring s a b) = s ! a"
    and "last (substring s a b) = s ! (b - 1)"
proof -
  have eq: "substring s a b = take (b - a) (drop a s)"
    using assms by (simp add: substring_le)
  show len: "length (substring s a b) = b - a"
    using assms by (simp add: eq)
  then show ne: "substring s a b \<noteq> []" using assms by auto
  show "hd (substring s a b) = s ! a"
    using assms by (simp add: eq hd_drop_conv_nth)
  have "last (substring s a b) = substring s a b ! (b - a - 1)"
    using ne len by (simp add: last_conv_nth)
  also have "\<dots> = s ! (b - 1)"
    using assms by (simp add: eq)
  finally show "last (substring s a b) = s ! (b - 1)" .
qed

subsection \<open>What a match says about the characters\<close>

lemma exec_chars:
  assumes "sentenceEndings_exec s l = Some (i, g, m)"
  shows "isTerminator (s ! (i + g - 1))"
    and "\<And>k. i + g \<le> k \<Longrightarrow> k < i + m \<Longrightarrow> isWhiteSpace (s ! k)"
    and "i + m < length s \<Longrightarrow> \<not> isWhiteSpace (s ! (i + m))"
proof -
  note e = exec_Some [OF assms]
  note a = matchAt_Some [OF e(3)]
  let ?r = "drop i s"
  let ?G = "takeWhile isTerminator ?r"
  let ?r' = "drop g ?r"
  let ?W = "takeWhile isWhiteSpace ?r'"
  have lenW: "length ?W = m - g" using a(2) by simp
  have im: "i + m \<le> length s" using a(5) e(2) by simp
  have "?G ! (g - 1) \<in> set ?G" using a(1) a(3) by simp
  then have "isTerminator (?G ! (g - 1))" by (rule set_takeWhileD [THEN conjunct2])
  moreover have "?G ! (g - 1) = ?r ! (g - 1)" using a(1) a(3) by (simp add: takeWhile_nth)
  moreover have "?r ! (g - 1) = s ! (i + g - 1)" using a(3) a(4) im by simp
  ultimately show "isTerminator (s ! (i + g - 1))" by simp
  show "isWhiteSpace (s ! k)" if "i + g \<le> k" "k < i + m" for k
  proof -
    have j: "k - (i + g) < length ?W" using that lenW by simp
    then have "?W ! (k - (i + g)) \<in> set ?W" by simp
    then have "isWhiteSpace (?W ! (k - (i + g)))" by (rule set_takeWhileD [THEN conjunct2])
    moreover have "?W ! (k - (i + g)) = ?r' ! (k - (i + g))" using j by (rule takeWhile_nth)
    moreover have "?r' ! (k - (i + g)) = s ! k" using that im by (simp add: add.commute)
    ultimately show ?thesis by simp
  qed
  show "\<not> isWhiteSpace (s ! (i + m))" if "i + m < length s"
  proof -
    have "length ?W < length ?r'" using that lenW a(4) by simp
    then have "\<not> isWhiteSpace (?r' ! length ?W)" by (rule nth_length_takeWhile)
    moreover have "?r' ! length ?W = s ! (i + m)" using that lenW a(4) by (simp add: add.commute add.left_commute)
    ultimately show ?thesis by simp
  qed
qed

lemma splitIntoSentences_alt:
  "splitIntoSentences t =
     (if normalize t = [] then []
      else if segmentClean (normalize t) = [] then lineFallback (normalize t)
      else segmentClean (normalize t))"
  by (simp add: splitIntoSentences_def segmentClean_def Let_def split: prod.splits)

lemma pushSentence_trimmed:
  assumes "a < b" and "b \<le> length s"
    and "\<not> isWhiteSpace (s ! a)" and "\<not> isWhiteSpace (s ! (b - 1))"
  shows "pushSentence s a b acc = acc @ [sentenceAt s a b]"
proof -
  note p = substring_props [OF assms(1,2)]
  have "trim (substring s a b) = substring s a b"
    using p assms(3,4) by (simp add: trim_id)
  then show ?thesis
    using p(2) by (simp add: pushSentence_def sentenceAt_def)
qed

lemma splitLoop_rule:
  assumes step: "\<And>l acc i g m. I l acc \<Longrightarrow> sentenceEndings_exec s l = Some (i, g, m)
                   \<Longrightarrow> I (i + m) (pushSentence s l (i + g) acc)"
  shows "I l acc \<Longrightarrow> \<exists>r l'. splitLoop s l acc = (r, l') \<and> I l' r"
proof (induction "length s - l" arbitrary: l acc rule: less_induct)
  case less
  show ?case
  proof (cases "sentenceEndings_exec s l")
    case None
    then have "splitLoop s l acc = (acc, l)" by (simp add: splitLoop.simps)
    with less.prems show ?thesis by simp
  next
    case (Some x)
    obtain i g m where x: "x = (i, g, m)" by (cases x)
    with Some have e: "sentenceEndings_exec s l = Some (i, g, m)" by simp
    have I': "I (i + m) (pushSentence s l (i + g) acc)"
      using less.prems e by (rule step)
    have "length s - (i + m) < length s - l" using e by (rule exec_decreases)
    from less.hyps [OF this I']
    obtain r l' where "splitLoop s (i + m) (pushSentence s l (i + g) acc) = (r, l')" "I l' r"
      by blast
    moreover have "splitLoop s l acc = splitLoop s (i + m) (pushSentence s l (i + g) acc)"
      using e by (simp add: splitLoop.simps [of s l])
    ultimately show ?thesis by simp
  qed
qed

lemma segmentClean_rule:
  assumes ne: "s \<noteq> []" and hd: "\<not> isWhiteSpace (hd s)" and lst: "\<not> isWhiteSpace (last s)"
    and base: "Q 0 []"
    and step: "\<And>l acc b l'. Q l acc \<Longrightarrow> l < b \<Longrightarrow> b < l' \<Longrightarrow> l' < length s
                 \<Longrightarrow> \<not> isWhiteSpace (s ! l) \<Longrightarrow> \<not> isWhiteSpace (s ! (b - 1))
                 \<Longrightarrow> (\<forall>k. b \<le> k \<and> k < l' \<longrightarrow> isWhiteSpace (s ! k))
                 \<Longrightarrow> Q l' (acc @ [sentenceAt s l b])"
  shows "\<exists>l acc. Q l acc \<and> l < length s \<and> \<not> isWhiteSpace (s ! l)
           \<and> segmentClean s = acc @ [sentenceAt s l (length s)]"
proof -
  define I where "I l acc \<longleftrightarrow> Q l acc \<and> l < length s \<and> \<not> isWhiteSpace (s ! l)" for l acc
  have last_nth: "\<not> isWhiteSpace (s ! (length s - 1))"
    using ne lst by (simp add: last_conv_nth)
  have I0: "I 0 []"
    using ne hd base by (simp add: I_def hd_conv_nth)
  have Istep: "I (i + m) (pushSentence s l (i + g) acc)"
    if inv: "I l acc" and e: "sentenceEndings_exec s l = Some (i, g, m)" for l acc i g m
  proof -
    note b = exec_bounds [OF e]
    note c = exec_chars [OF e]
    from inv have q: "Q l acc" and l: "\<not> isWhiteSpace (s ! l)" by (simp_all add: I_def)
    have t: "\<not> isWhiteSpace (s ! (i + g - 1))" using c(1) by (rule terminator_not_ws)
    have "isWhiteSpace (s ! (i + m - 1))" using b(3) by (intro c(2)) simp_all
    with last_nth have "i + m \<noteq> length s" by auto
    with b(4) have lt: "i + m < length s" by simp
    then have nw: "\<not> isWhiteSpace (s ! (i + m))" by (rule c(3))
    have lb: "l < i + g" using b(1,2) by simp
    have bl: "i + g < i + m" using b(3) by simp
    have push: "pushSentence s l (i + g) acc = acc @ [sentenceAt s l (i + g)]"
      using lb bl lt l t by (intro pushSentence_trimmed) simp_all
    have "Q (i + m) (acc @ [sentenceAt s l (i + g)])"
      using q lb bl lt l t c(2) by (intro step) simp_all
    with push lt nw show ?thesis by (simp add: I_def)
  qed
  from splitLoop_rule [of I s 0 "[]", OF Istep I0]
  obtain r l' where r: "splitLoop s 0 [] = (r, l')" and inv: "I l' r" by blast
  from inv have q: "Q l' r" and lt: "l' < length s" and nw: "\<not> isWhiteSpace (s ! l')"
    by (simp_all add: I_def)
  have "pushSentence s l' (length s) r = r @ [sentenceAt s l' (length s)]"
    using lt nw last_nth by (intro pushSentence_trimmed) simp_all
  with r lt have "segmentClean s = r @ [sentenceAt s l' (length s)]"
    by (simp add: segmentClean_def)
  with q lt nw show ?thesis by blast
qed

lemma collapse_Nil_iff: "collapse s = [] \<longleftrightarrow> s = []"
  by (cases s) simp_all

lemma hd_collapse_ws: "s \<noteq> [] \<Longrightarrow> isWhiteSpace (hd (collapse s)) = isWhiteSpace (hd s)"
  by (cases s) (simp_all add: ws_SPACE)

lemma spaced_collapse: "spaced (collapse s)"
proof (induction s rule: collapse.induct)
  case 1
  show ?case by simp
next
  case (2 c cs)
  show ?case
  proof (cases "isWhiteSpace c")
    case True
    let ?d = "dropWhile isWhiteSpace cs"
    have "collapse ?d = [] \<or> \<not> isWhiteSpace (hd (collapse ?d))"
    proof (cases "?d = []")
      case True
      then show ?thesis by (simp add: collapse_Nil_iff)
    next
      case False
      then have "\<not> isWhiteSpace (hd ?d)" by (rule hd_dropWhile)
      with False show ?thesis by (simp add: hd_collapse_ws)
    qed
    with True "2.IH"(1) show ?thesis by simp
  next
    case False
    with "2.IH"(2) show ?thesis by simp
  qed
qed

lemma spaced_drop: "spaced s \<Longrightarrow> spaced (drop n s)"
proof (induction s arbitrary: n)
  case Nil
  show ?case by simp
next
  case (Cons c cs)
  then show ?case by (cases n) simp_all
qed

lemma spaced_take: "spaced s \<Longrightarrow> spaced (take n s)"
proof (induction s arbitrary: n)
  case Nil
  show ?case by simp
next
  case (Cons c cs)
  show ?case
  proof (cases n)
    case 0
    then show ?thesis by simp
  next
    case (Suc k)
    from Cons.prems have sp: "spaced cs" by simp
    have "take k cs = [] \<or> \<not> isWhiteSpace (hd (take k cs))" if "isWhiteSpace c"
    proof (cases "k = 0 \<or> cs = []")
      case True
      then show ?thesis by auto
    next
      case False
      with that Cons.prems show ?thesis by simp
    qed
    moreover from Cons.prems have "isWhiteSpace c \<longrightarrow> c = SPACE" by simp
    ultimately show ?thesis using Suc Cons.IH [OF sp] by simp
  qed
qed

lemma spaced_trim: "spaced s \<Longrightarrow> spaced (trim s)"
proof -
  assume sp: "spaced s"
  let ?d = "dropWhile isWhiteSpace s"
  have "spaced ?d"
    using sp by (subst dropWhile_eq_drop) (rule spaced_drop)
  moreover have "trim s = take (length ?d - length (takeWhile isWhiteSpace (rev ?d))) ?d"
    unfolding trim_def by (subst dropWhile_eq_drop) (simp add: rev_drop)
  ultimately show ?thesis by (simp add: spaced_take)
qed

lemma spaced_normalize: "spaced (normalize t)"
  by (simp add: normalize_def spaced_trim spaced_collapse)

lemma spaced_nth:
  "spaced s \<Longrightarrow> Suc k < length s \<Longrightarrow> isWhiteSpace (s ! k)
     \<Longrightarrow> s ! k = SPACE \<and> \<not> isWhiteSpace (s ! Suc k)"
proof (induction s arbitrary: k)
  case Nil
  then show ?case by simp
next
  case (Cons c cs)
  show ?case
  proof (cases k)
    case 0
    with Cons.prems show ?thesis by (cases cs) auto
  next
    case (Suc j)
    with Cons.prems Cons.IH [of j] show ?thesis by simp
  qed
qed

lemma collapse_spaced: "spaced s \<Longrightarrow> collapse s = s"
proof (induction s)
  case Nil
  show ?case by simp
next
  case (Cons c cs)
  then have IH: "collapse cs = cs" by simp
  show ?case
  proof (cases "isWhiteSpace c")
    case True
    with Cons.prems have c: "c = SPACE" and "cs = [] \<or> \<not> isWhiteSpace (hd cs)" by simp_all
    then have "dropWhile isWhiteSpace cs = cs" by (simp add: dropWhile_eq_self_iff)
    with True c IH show ?thesis by simp
  next
    case False
    with IH show ?thesis by simp
  qed
qed

lemma spaced_ws: "spaced s \<Longrightarrow> c \<in> set s \<Longrightarrow> isWhiteSpace c \<Longrightarrow> c = SPACE"
  by (induction s) auto

lemma normalize_no_newline: "NEWLINE \<notin> set (normalize t)"
proof
  assume "NEWLINE \<in> set (normalize t)"
  moreover have "isWhiteSpace NEWLINE" by (simp add: isWhiteSpace_def NEWLINE_def)
  ultimately have "NEWLINE = SPACE" using spaced_normalize by (rule spaced_ws [rotated])
  then show False by (simp add: NEWLINE_def SPACE_def)
qed

lemma normalize_idem: "normalize (normalize t) = normalize t"
proof -
  have "collapse (normalize t) = normalize t"
    by (rule collapse_spaced) (rule spaced_normalize)
  then have "normalize (normalize t) = trim (trim (collapse t))"
    by (simp add: normalize_def)
  then show ?thesis by (simp add: trim_idem normalize_def)
qed

lemma normalize_trimmed:
  assumes "normalize t \<noteq> []"
  shows "\<not> isWhiteSpace (hd (normalize t))" and "\<not> isWhiteSpace (last (normalize t))"
  using assms trim_trimmed [of "collapse t"] by (simp_all add: normalize_def)

lemma segmentClean_nonempty:
  assumes "s \<noteq> []" and "\<not> isWhiteSpace (hd s)" and "\<not> isWhiteSpace (last s)"
  shows "segmentClean s \<noteq> []"
proof -
  from segmentClean_rule [of s "\<lambda>l acc. True", OF assms]
  obtain l acc where "segmentClean s = acc @ [sentenceAt s l (length s)]" by blast
  then show ?thesis by simp
qed

lemma split_clean:
  assumes "normalize t \<noteq> []"
  shows "splitIntoSentences t = segmentClean (normalize t)"
  using assms segmentClean_nonempty [OF assms normalize_trimmed [OF assms]]
  by (simp add: splitIntoSentences_alt)

lemma split_empty: "normalize t = [] \<Longrightarrow> splitIntoSentences t = []"
  by (simp add: splitIntoSentences_alt)

subsection \<open>Offsets delimit the text\<close>

lemma delimits_sentenceAt:
  assumes "a < b" and "b \<le> length s"
  shows "delimits s (sentenceAt s a b)"
  using assms substring_props(1) [OF assms]
  by (simp add: delimits_def sentenceAt_def)

lemma segmentClean_delimits:
  assumes "s \<noteq> []" and "\<not> isWhiteSpace (hd s)" and "\<not> isWhiteSpace (last s)"
  shows "list_all (delimits s) (segmentClean s)"
proof -
  have "\<exists>l acc. list_all (delimits s) acc \<and> l < length s \<and> \<not> isWhiteSpace (s ! l)
          \<and> segmentClean s = acc @ [sentenceAt s l (length s)]"
    using assms
  proof (rule segmentClean_rule)
    show "list_all (delimits s) []" by simp
  next
    fix l acc b l'
    assume "list_all (delimits s) acc" "l < b" "b < l'" "l' < length s"
    then show "list_all (delimits s) (acc @ [sentenceAt s l b])"
      by (simp add: delimits_sentenceAt)
  qed
  then obtain l acc where "list_all (delimits s) acc" "l < length s"
    "segmentClean s = acc @ [sentenceAt s l (length s)]" by blast
  then show ?thesis by (simp add: delimits_sentenceAt)
qed

lemma split_delimits: "list_all (delimits (normalize t)) (splitIntoSentences t)"
proof (cases "normalize t = []")
  case True
  then show ?thesis by (simp add: split_empty)
next
  case False
  then show ?thesis
    using segmentClean_delimits [OF False normalize_trimmed [OF False]]
    by (simp add: split_clean)
qed

subsection \<open>Order\<close>

lemma apart_snoc:
  assumes "apart us" and "\<forall>u\<in>set us. endIndex u \<le> startIndex v"
  shows "apart (us @ [v])"
  unfolding apart_def
proof (intro allI impI)
  fix i j
  assume ij: "i < j \<and> j < length (us @ [v])"
  show "endIndex ((us @ [v]) ! i) \<le> startIndex ((us @ [v]) ! j)"
  proof (cases "j < length us")
    case True
    with ij assms(1) show ?thesis by (simp add: apart_def nth_append)
  next
    case False
    with ij have j: "j = length us" and i: "i < length us" by simp_all
    then have "us ! i \<in> set us" by simp
    with assms(2) have "endIndex (us ! i) \<le> startIndex v" by blast
    with i j show ?thesis by (simp add: nth_append)
  qed
qed

lemma inOrder_snoc:
  assumes "inOrder l acc" and "l < b" and "b \<le> l'" and "b \<le> length s" and "\<not> isWhiteSpace (s ! l)"
  shows "inOrder l' (acc @ [sentenceAt s l b])"
proof -
  let ?v = "sentenceAt s l b"
  note p = substring_props [OF assms(2,4)]
  have v: "startIndex ?v = int l" "endIndex ?v = int b" "text' ?v = substring s l b"
    by (simp_all add: sentenceAt_def)
  have tv: "trim (text' ?v) \<noteq> []"
    using p assms(5) by (simp add: v trim_nonempty)
  from assms(1) have old: "\<forall>u\<in>set acc. startIndex u < endIndex u \<and> endIndex u \<le> int l \<and> trim (text' u) \<noteq> []"
    and srt: "sorted (map startIndex acc)" and ap: "apart acc"
    by (simp_all add: inOrder_def)
  have "sorted (map startIndex (acc @ [?v]))"
    using srt old by (fastforce simp: sorted_append v)
  moreover have "apart (acc @ [?v])"
    using ap old by (intro apart_snoc) (simp_all add: v)
  moreover have "\<forall>u\<in>set (acc @ [?v]). startIndex u < endIndex u \<and> endIndex u \<le> int l' \<and> trim (text' u) \<noteq> []"
    using old tv assms(2,3) by (fastforce simp: v)
  ultimately show ?thesis by (simp only: inOrder_def)
qed

lemma segmentClean_inOrder:
  assumes "s \<noteq> []" and "\<not> isWhiteSpace (hd s)" and "\<not> isWhiteSpace (last s)"
  shows "inOrder (length s) (segmentClean s)"
proof -
  have "\<exists>l acc. inOrder l acc \<and> l < length s \<and> \<not> isWhiteSpace (s ! l)
          \<and> segmentClean s = acc @ [sentenceAt s l (length s)]"
    using assms
  proof (rule segmentClean_rule)
    show "inOrder 0 []" by (simp add: inOrder_def apart_def)
  next
    fix l acc b l'
    assume "inOrder l acc" "l < b" "b < l'" "l' < length s" "\<not> isWhiteSpace (s ! l)"
    then show "inOrder l' (acc @ [sentenceAt s l b])"
      by (intro inOrder_snoc) simp_all
  qed
  then obtain l acc where "inOrder l acc" "l < length s" "\<not> isWhiteSpace (s ! l)"
    "segmentClean s = acc @ [sentenceAt s l (length s)]" by blast
  then show ?thesis using inOrder_snoc [of l acc "length s" "length s" s] by simp
qed

lemma split_inOrder: "inOrder (length (normalize t)) (splitIntoSentences t)"
proof (cases "normalize t = []")
  case True
  then show ?thesis by (simp add: split_empty inOrder_def apart_def)
next
  case False
  then show ?thesis
    using segmentClean_inOrder [OF False normalize_trimmed [OF False]]
    by (simp add: split_clean)
qed

subsection \<open>Joining the texts\<close>

lemma joinSp_snoc: "joinSp (xs @ [x]) = (if xs = [] then x else joinSp xs @ SPACE # x)"
  by (induction xs rule: joinSp.induct) simp_all

lemma joined_text:
  assumes "joined s l acc" and "l \<le> b"
  shows "joinSp (map text' (acc @ [sentenceAt s l b])) = take b s"
proof (cases "acc = []")
  case True
  with assms have "l = 0" by (simp add: joined_def)
  with True show ?thesis by (simp add: sentenceAt_def substring_le)
next
  case False
  with assms have j: "joinSp (map text' acc) @ [SPACE] = take l s" by (simp add: joined_def)
  have "joinSp (map text' (acc @ [sentenceAt s l b]))
          = (joinSp (map text' acc) @ [SPACE]) @ take (b - l) (drop l s)"
    using False assms(2) by (simp add: joinSp_snoc sentenceAt_def substring_le)
  also have "\<dots> = take l s @ take (b - l) (drop l s)" by (simp only: j)
  also have "\<dots> = take (l + (b - l)) s" by (simp only: take_add)
  finally show ?thesis using assms(2) by simp
qed

lemma segmentClean_joined:
  assumes ne: "s \<noteq> []" and hd: "\<not> isWhiteSpace (hd s)" and lst: "\<not> isWhiteSpace (last s)"
    and sp: "spaced s"
  shows "joinSp (map text' (segmentClean s)) = s"
proof -
  have "\<exists>l acc. joined s l acc \<and> l < length s \<and> \<not> isWhiteSpace (s ! l)
          \<and> segmentClean s = acc @ [sentenceAt s l (length s)]"
    using ne hd lst
  proof (rule segmentClean_rule)
    show "joined s 0 []" by (simp add: joined_def)
  next
    fix l acc b l'
    assume q: "joined s l acc" and lb: "l < b" and bl: "b < l'" and ll: "l' < length s"
      and ws: "\<forall>k. b \<le> k \<and> k < l' \<longrightarrow> isWhiteSpace (s ! k)"
    from ws bl have wb: "isWhiteSpace (s ! b)" by simp
    from bl ll have "Suc b < length s" by simp
    from spaced_nth [OF sp this wb] have sb: "s ! b = SPACE" and nx: "\<not> isWhiteSpace (s ! Suc b)"
      by simp_all
    have l': "l' = Suc b"
    proof (rule ccontr)
      assume "l' \<noteq> Suc b"
      with bl have "b \<le> Suc b \<and> Suc b < l'" by simp
      with ws have "isWhiteSpace (s ! Suc b)" by blast
      with nx show False by simp
    qed
    have "joinSp (map text' (acc @ [sentenceAt s l b])) = take b s"
      using q lb by (intro joined_text) simp_all
    then have "joinSp (map text' (acc @ [sentenceAt s l b])) @ [SPACE] = take (Suc b) s"
      using bl ll sb by (simp add: take_Suc_conv_app_nth)
    then show "joined s l' (acc @ [sentenceAt s l b])"
      by (simp add: joined_def l')
  qed
  then obtain l acc where "joined s l acc" "l < length s"
    and eq: "segmentClean s = acc @ [sentenceAt s l (length s)]" by blast
  then have "joinSp (map text' (acc @ [sentenceAt s l (length s)])) = take (length s) s"
    by (intro joined_text) simp_all
  with eq show ?thesis by simp
qed

lemma split_joined: "joinSp (map text' (splitIntoSentences t)) = normalize t"
proof (cases "normalize t = []")
  case True
  then show ?thesis by (simp add: split_empty)
next
  case False
  then show ?thesis
    using segmentClean_joined [OF False normalize_trimmed [OF False] spaced_normalize]
    by (simp add: split_clean)
qed

lemmas seg_eval = js_def normalize_def trim_def isWhiteSpace_def isTerminator_def SPACE_def
  splitIntoSentences_def splitLoop.simps sentenceEndings_exec_def matchAt_def pushSentence_def
  substring_def Let_def

lemma example_normalize: "normalize exampleDoc = js ''Hi there. Bye''"
  by (simp add: exampleDoc_def js_def normalize_def trim_def isWhiteSpace_def SPACE_def)

lemma example_split: "splitIntoSentences exampleDoc = exampleSentences"
  by (simp add: exampleDoc_def exampleSentences_def seg_eval)

lemma example_textToRead: "textToRead exampleSentences 0 = js ''Hi there. Bye''"
  by (simp add: exampleSentences_def textToRead_def sliceFrom_def trim_def js_def isWhiteSpace_def SPACE_def)

lemma example_table:
  "sentenceStartIndices exampleUtterance =
     [\<lparr>index = 0, charStart = 0\<rparr>, \<lparr>index = 1, charStart = 10\<rparr>]"
  by (simp add: exampleUtterance_def newUtterance_def exampleSentences_def sliceFrom_def js_def)

subsection \<open>resolve\<close>

lemma scanBack_mem: "scanBack es c = Some i \<Longrightarrow> i \<in> index ` set es"
  by (induction es) (auto split: if_splits)

lemma scanBack_mono:
  "sorted (map index (rev es)) \<Longrightarrow> c1 \<le> c2 \<Longrightarrow> scanBack es c1 = Some i1
     \<Longrightarrow> \<exists>i2. scanBack es c2 = Some i2 \<and> i1 \<le> i2"
proof (induction es)
  case Nil
  then show ?case by simp
next
  case (Cons e es)
  from Cons.prems(1) have srt: "sorted (map index (rev es))"
    and le: "\<forall>x\<in>set es. index x \<le> index e"
    by (auto simp: sorted_append)
  show ?case
  proof (cases "charStart e \<le> c2")
    case True
    have "i1 \<le> index e"
    proof (cases "charStart e \<le> c1")
      case True
      with Cons.prems(3) show ?thesis by simp
    next
      case False
      with Cons.prems(3) have "scanBack es c1 = Some i1" by simp
      from scanBack_mem [OF this] le show ?thesis by auto
    qed
    with True show ?thesis by simp
  next
    case False
    with Cons.prems(2) have "\<not> charStart e \<le> c1" by simp
    with Cons.prems(3) have "scanBack es c1 = Some i1" by simp
    from Cons.IH [OF srt Cons.prems(2) this] False show ?thesis by simp
  qed
qed

lemma startIndices_lower:
  "e \<in> set (startIndices ss start k c) \<Longrightarrow> start + int k \<le> index e"
  by (induction ss start k c rule: startIndices.induct) auto

lemma startIndices_sorted: "sorted (map index (startIndices ss start k c))"
proof (induction ss start k c rule: startIndices.induct)
  case (1 start idx charCount)
  show ?case by simp
next
  case (2 s ss start idx charCount)
  have "start + int idx \<le> index e"
    if "e \<in> set (startIndices ss start (Suc idx) (charCount + (length (text' s) + 1)))" for e
    using startIndices_lower [OF that] by simp
  with 2 show ?case by auto
qed

lemma scanBack_first:
  "e \<in> set es \<Longrightarrow> charStart e \<le> c \<Longrightarrow> scanBack es c \<noteq> None"
  by (induction es) auto

lemma resolve_total:
  assumes "sliceFrom ss start \<noteq> []"
  shows "resolve (startIndices (sliceFrom ss start) start 0 0) c \<noteq> None"
proof -
  from assms obtain x xs where "sliceFrom ss start = x # xs" by (cases "sliceFrom ss start") auto
  then have "\<lparr>index = start + int 0, charStart = 0\<rparr> \<in> set (rev (startIndices (sliceFrom ss start) start 0 0))"
    by simp
  then show ?thesis unfolding resolve_def by (rule scanBack_first) simp
qed

lemma resolve_mono:
  assumes "c1 \<le> c2" and "resolve (startIndices xs start 0 0) c1 = Some i1"
  shows "\<exists>i2. resolve (startIndices xs start 0 0) c2 = Some i2 \<and> i1 \<le> i2"
  using assms(2) unfolding resolve_def
  by (intro scanBack_mono [OF _ assms(1)]) (simp_all add: startIndices_sorted)

lemma textToRead_slice: "textToRead ss start \<noteq> [] \<Longrightarrow> sliceFrom ss start \<noteq> []"
  by (auto simp: textToRead_def trim_def)

subsection \<open>The handlers\<close>

lemma textToRead_beyond: "int (length ss) \<le> i \<Longrightarrow> textToRead ss i = []"
  by (simp add: textToRead_def sliceFrom_def trim_def)

lemma textToRead_split:
  "textToRead (splitIntoSentences doc) 0 = normalize doc"
proof -
  have "trim (normalize doc) = normalize doc"
    by (simp add: normalize_def trim_idem)
  then show ?thesis by (simp add: textToRead_def sliceFrom_def split_joined)
qed

lemma split_nonempty: "splitIntoSentences doc \<noteq> [] \<Longrightarrow> normalize doc \<noteq> []"
  using split_empty [of doc] by auto

lemma handleSentenceClick_no_engine:
  "\<not> speechSynthesisInWindow s \<Longrightarrow> handleSentenceClick s i = Inl TypeError"
  by (simp add: handleSentenceClick_def)

lemma handlePlay_no_engine:
  "\<not> speechSynthesisInWindow s \<Longrightarrow> sentences s \<noteq> [] \<Longrightarrow> handlePlay s = Inl TypeError"
  by (simp add: handlePlay_def)

lemma onstart_Playing: "Playing (onstart u s) \<and> currentSentenceIndex (onstart u s) = Some (startFrom u)"
  by (simp add: Playing_def onstart_def)

lemma sliceFrom_negative:
  "i < 0 \<Longrightarrow> sliceFrom xs i = drop (length xs - nat (- i)) xs"
proof -
  assume "i < 0"
  then have "nat (int (length xs) + i) = length xs - nat (- i)" by linarith
  with \<open>i < 0\<close> show ?thesis by (simp add: sliceFrom_def)
qed

lemma length_joinSp_Cons:
  "length (joinSp (x # ys)) = length x + (if ys = [] then 0 else 1 + length (joinSp ys))"
  by (cases ys) simp_all

lemma startIndices_length: "length (startIndices ss st i c) = length ss"
  by (induction ss st i c rule: startIndices.induct) simp_all

lemma startIndices_nth:
  "k < length ss \<Longrightarrow>
     startIndices ss st i c ! k =
       \<lparr>index = st + int (i + k),
        charStart = c + length (joinSp (map text' (take k ss))) + (if k = 0 then 0 else 1)\<rparr>"
proof (induction ss arbitrary: k i c)
  case Nil
  then show ?case by simp
next
  case (Cons x xs)
  show ?case
  proof (cases k)
    case 0
    then show ?thesis by simp
  next
    case (Suc j)
    with Cons.prems have j: "j < length xs" by simp
    then have "take j xs = [] \<longleftrightarrow> j = 0" by (cases xs) auto
    with Suc Cons.IH [OF j] show ?thesis
      by (simp add: length_joinSp_Cons)
  qed
qed

lemma startIndices_table:
  "startIndices ss st 0 0 =
     map (\<lambda>k. \<lparr>index = st + int k,
                charStart = length (joinSp (map text' (take k ss))) + (if k = 0 then 0 else 1)\<rparr>)
       [0..<length ss]"
  by (rule nth_equalityI) (simp_all add: startIndices_length startIndices_nth)

section \<open>The claims\<close>

text \<open>
  C8. \<open>splitIntoSentences\<close> on "Hello world. This is a test! Is it working?" returns
  exactly three sentences, with the texts "Hello world.", "This is a test!" and
  "Is it working?" in this order (and the offsets 0-12, 13-28 and 29-43).
\<close>

theorem segment_hello_world:
  "splitIntoSentences (js ''Hello world. This is a test! Is it working?'') =
     [\<lparr>text' = js ''Hello world.'', startIndex = 0, endIndex = 12\<rparr>,
      \<lparr>text' = js ''This is a test!'', startIndex = 13, endIndex = 28\<rparr>,
      \<lparr>text' = js ''Is it working?'', startIndex = 29, endIndex = 43\<rparr>]"
  by (simp add: seg_eval)

text \<open>
  C1. What the code returns on three lines without terminators: the line feeds are
  white space, so the text is cleaned to one line before anything is split, and the
  result is a single sentence holding all three lines, not one sentence per line. No
  cleaned text has a line feed left for lines 72-96 to split on.
\<close>

theorem segment_three_lines:
  "splitIntoSentences (js ''Line one\<newline>Line two\<newline>Line three'') =
     [\<lparr>text' = js ''Line one Line two Line three'', startIndex = 0, endIndex = 28\<rparr>]
   \<and> (\<forall>t. NEWLINE \<notin> set (normalize t))"
  by (simp add: normalize_no_newline) (simp add: seg_eval)

text \<open>
  C5. Within one narration request the index resolved from the character offset of a
  boundary event never decreases as the offset grows: for the table built with the
  utterance of a request (its text to read is not empty), offsets \<open>c1 \<le> c2\<close> resolve to
  indices \<open>i1 \<le> i2\<close>, and both resolve.
\<close>

theorem resolve_monotone:
  assumes "c1 \<le> c2" and "textToRead ss start \<noteq> []"
  shows "\<exists>i1 i2. resolve (sentenceStartIndices (newUtterance ss (textToRead ss start) start)) c1 = Some i1
            \<and> resolve (sentenceStartIndices (newUtterance ss (textToRead ss start) start)) c2 = Some i2
            \<and> i1 \<le> i2"
proof -
  let ?T = "startIndices (sliceFrom ss start) start 0 0"
  have T: "sentenceStartIndices (newUtterance ss (textToRead ss start) start) = ?T"
    by (simp add: newUtterance_def)
  from assms(2) have "sliceFrom ss start \<noteq> []" by (rule textToRead_slice)
  then have "resolve ?T c1 \<noteq> None" by (rule resolve_total)
  then obtain i1 where i1: "resolve ?T c1 = Some i1" by auto
  from resolve_mono [OF assms(1) this] obtain i2 where "resolve ?T c2 = Some i2" "i1 \<le> i2"
    by blast
  with i1 show ?thesis by (simp add: T)
qed

theorem resolve_monotone_witness:
  "(3::nat) \<le> 12 \<and> textToRead exampleSentences 0 \<noteq> []
   \<and> resolve (sentenceStartIndices exampleUtterance) 3 = Some 0
   \<and> resolve (sentenceStartIndices exampleUtterance) 12 = Some 1"
proof -
  have h1: "(3::nat) \<le> 12" by simp
  have h2: "textToRead exampleSentences 0 \<noteq> []" by (simp add: example_textToRead js_def)
  from resolve_monotone [OF h1 h2] h2 show ?thesis
    by (simp add: example_table resolve_def exampleUtterance_def [symmetric])
qed

text \<open>
  C6. For every input, the texts of the sentences joined with single spaces are the
  cleaned input (white space collapsed, trimmed), and cleaning is idempotent. When the
  cleaned input is empty there is no sentence and the join is empty too, so the equation
  needs no hypothesis.
\<close>

theorem join_reproduces_normalized:
  "joinSp (map text' (splitIntoSentences t)) = normalize t
   \<and> normalize (normalize t) = normalize t"
  by (simp add: split_joined normalize_idem)

theorem join_reproduces_normalized_witness:
  "normalize exampleDoc \<noteq> []
   \<and> joinSp (map text' (splitIntoSentences exampleDoc)) = js ''Hi there. Bye''
   \<and> normalize (js ''Hi there. Bye'') = js ''Hi there. Bye''"
  using join_reproduces_normalized [of exampleDoc]
  by (simp add: example_normalize) (simp add: js_def)

text \<open>
  C7. For every input, the sentences come with start offsets in non-decreasing order,
  their intervals do not overlap (each ends at or before the start of every later one,
  and none is empty), and no text is empty after trimming.
\<close>

theorem segment_ordered:
  "sorted (map startIndex (splitIntoSentences t))
   \<and> (\<forall>i j. i < j \<and> j < length (splitIntoSentences t)
          \<longrightarrow> endIndex (splitIntoSentences t ! i) \<le> startIndex (splitIntoSentences t ! j))
   \<and> (\<forall>u\<in>set (splitIntoSentences t). startIndex u < endIndex u \<and> trim (text' u) \<noteq> [])"
  using split_inOrder [of t] by (simp add: inOrder_def apart_def)

theorem segment_ordered_witness:
  "length (splitIntoSentences exampleDoc) = 2
   \<and> sorted (map startIndex (splitIntoSentences exampleDoc))
   \<and> endIndex (splitIntoSentences exampleDoc ! 0) \<le> startIndex (splitIntoSentences exampleDoc ! 1)
   \<and> startIndex (splitIntoSentences exampleDoc ! 1) < endIndex (splitIntoSentences exampleDoc ! 1)
   \<and> trim (text' (splitIntoSentences exampleDoc ! 1)) \<noteq> []"
proof -
  have len: "length (splitIntoSentences exampleDoc) = 2"
    by (simp add: example_split exampleSentences_def)
  then have mem: "splitIntoSentences exampleDoc ! 1 \<in> set (splitIntoSentences exampleDoc)"
    by simp
  from segment_ordered [of exampleDoc] len mem show ?thesis by auto
qed

text \<open>
  C10. For every input, the offsets of each sentence delimit its text in the cleaned
  input: the text is the substring from \<open>startIndex\<close> to \<open>endIndex\<close>, the offsets lie
  within the cleaned input, and their difference is the length of the text.
\<close>

theorem offsets_delimit_text:
  "\<forall>u\<in>set (splitIntoSentences t).
     0 \<le> startIndex u \<and> endIndex u \<le> int (length (normalize t))
     \<and> text' u = substring (normalize t) (nat (startIndex u)) (nat (endIndex u))
     \<and> endIndex u - startIndex u = int (length (text' u))"
  using split_delimits [of t] by (simp add: list_all_iff delimits_def)

theorem offsets_delimit_text_witness:
  "splitIntoSentences exampleDoc ! 1 = \<lparr>text' = js ''Bye'', startIndex = 10, endIndex = 13\<rparr>
   \<and> js ''Bye'' = substring (normalize exampleDoc) 10 13
   \<and> (13::int) - 10 = int (length (js ''Bye''))"
proof -
  have v: "splitIntoSentences exampleDoc ! 1 = \<lparr>text' = js ''Bye'', startIndex = 10, endIndex = 13\<rparr>"
    by (simp add: example_split exampleSentences_def)
  have "splitIntoSentences exampleDoc ! 1 \<in> set (splitIntoSentences exampleDoc)"
    by (simp add: example_split exampleSentences_def)
  with offsets_delimit_text [of exampleDoc] v show ?thesis by auto
qed

text \<open>
  C4. The error callback. Without a code (\<open>undefined\<close>, or the empty string, which is
  falsy as well) and with the codes "canceled" and "interrupted", no message is given to
  \<open>setError\<close>; with any other code exactly one message is, and it carries the code. In
  every case the state is Idle afterwards: not playing, no current index.
\<close>

theorem onerror_classified:
  "errorLog (onerror None s) = errorLog s \<and> error (onerror None s) = error s
   \<and> Idle (onerror None s)
   \<and> (if c = [] \<or> c = ''canceled'' \<or> c = ''interrupted''
       then errorLog (onerror (Some c) s) = errorLog s \<and> error (onerror (Some c) s) = error s
       else errorLog (onerror (Some c) s) = errorLog s @ [''Speech synthesis error: '' @ c]
          \<and> error (onerror (Some c) s) = Some (''Speech synthesis error: '' @ c))
   \<and> Idle (onerror (Some c) s)"
  by (simp add: onerror_def isCancellation_def falsy_def setError_def Idle_def)

theorem onerror_classified_witness:
  "errorLog (onerror (Some ''network'') examplePlaying) = [''Speech synthesis error: network'']
   \<and> errorLog (onerror (Some ''interrupted'') examplePlaying) = []
   \<and> errorLog (onerror None examplePlaying) = []
   \<and> Idle (onerror (Some ''network'') examplePlaying)"
  using onerror_classified [of examplePlaying "''network''"]
    onerror_classified [of examplePlaying "''interrupted''"]
  by (simp add: examplePlaying_def)

text \<open>
  C3. A click on the current sentence while the state is Playing does not always pause.
  With the flag \<open>isPlaying\<close> set and the engine neither speaking nor paused, the handler
  clears the index and schedules a new narration request from the clicked sentence;
  with the engine paused it resumes and the state stays Playing.
\<close>

theorem seek_current_counterexample:
  "Playing exampleSilent \<and> currentSentenceIndex exampleSilent = Some 0
   \<and> handleSentenceClick exampleSilent 0 =
       Inr (exampleSilent\<lparr>isPlaying := False, currentSentenceIndex := None,
              timeouts := [\<lparr>ttext = js ''Hi there. Bye'', tindex = 0,
                             tsentences = exampleSentences\<rparr>]\<rparr>)
   \<and> Playing exampleEnginePaused \<and> currentSentenceIndex exampleEnginePaused = Some 0
   \<and> handleSentenceClick exampleEnginePaused 0 =
       Inr (exampleEnginePaused\<lparr>speechSynthesis :=
              \<lparr>speaking = True, paused = False, voices = 1, queue = []\<rparr>\<rparr>)"
  by (simp add: Playing_def exampleSilent_def exampleEnginePaused_def handleSentenceClick_def
      Let_def synth_resume_def example_textToRead) (simp add: js_def)

text \<open>
  C3, as the code has it: when the state is Playing, the clicked sentence is the current
  one, and the engine is there and reports that it is speaking and not paused, the click
  pauses in place. The state is Paused and the engine paused, the index stays, and no
  narration request is issued: the engine's queue, the pending timeouts, the listeners
  and \<open>utteranceRef\<close> are as before. This holds for every index, the valid ones among
  them.
\<close>

theorem seek_current_pauses:
  assumes "Playing s" and "currentSentenceIndex s = Some i" and "speechSynthesisInWindow s"
    and "speaking (speechSynthesis s)" and "\<not> paused (speechSynthesis s)"
  shows "handleSentenceClick s i =
           Inr (s\<lparr>speechSynthesis := (speechSynthesis s)\<lparr>paused := True\<rparr>, isPlaying := False\<rparr>)
   \<and> (\<exists>s'. handleSentenceClick s i = Inr s'
         \<and> Paused s' \<and> paused (speechSynthesis s')
         \<and> currentSentenceIndex s' = Some i
         \<and> queue (speechSynthesis s') = queue (speechSynthesis s)
         \<and> timeouts s' = timeouts s
         \<and> voicesChangedListeners s' = voicesChangedListeners s
         \<and> utteranceRef s' = utteranceRef s)"
  using assms by (simp add: handleSentenceClick_def synth_pause_def Playing_def Paused_def)

theorem seek_current_pauses_witness:
  "Playing examplePlaying \<and> currentSentenceIndex examplePlaying = Some 0
   \<and> speechSynthesisInWindow examplePlaying
   \<and> speaking (speechSynthesis examplePlaying) \<and> \<not> paused (speechSynthesis examplePlaying)
   \<and> handleSentenceClick examplePlaying 0 =
       Inr (examplePlaying\<lparr>speechSynthesis :=
              \<lparr>speaking = True, paused = True, voices = 1, queue = [exampleUtterance]\<rparr>,
            isPlaying := False\<rparr>)"
proof -
  have h: "Playing examplePlaying" "currentSentenceIndex examplePlaying = Some 0"
    "speechSynthesisInWindow examplePlaying"
    "speaking (speechSynthesis examplePlaying)" "\<not> paused (speechSynthesis examplePlaying)"
    by (simp_all add: Playing_def examplePlaying_def)
  have e: "(speechSynthesis examplePlaying)\<lparr>paused := True\<rparr> =
             \<lparr>speaking = True, paused = True, voices = 1, queue = [exampleUtterance]\<rparr>"
    by (simp add: examplePlaying_def)
  from seek_current_pauses [OF h, THEN conjunct1] h show ?thesis by (simp only: e simp_thms)
qed

text \<open>
  C2. A click with an index out of range is not a no-op. While the first of two
  sentences is playing, index 5 cancels the engine's request and leaves the state Idle
  with no current index; index -1 does the same and schedules a narration request for
  the last sentence.
\<close>

theorem seek_out_of_range_counterexample:
  "\<not> (0 \<le> (5::int) \<and> 5 < int (length (sentences examplePlaying)))
   \<and> \<not> (0 \<le> (- 1::int) \<and> - 1 < int (length (sentences examplePlaying)))
   \<and> Playing examplePlaying \<and> currentSentenceIndex examplePlaying = Some 0
   \<and> queue (speechSynthesis examplePlaying) = [exampleUtterance]
   \<and> handleSentenceClick examplePlaying 5 =
       Inr (examplePlaying\<lparr>speechSynthesis :=
              \<lparr>speaking = False, paused = False, voices = 1, queue = []\<rparr>,
            isPlaying := False, currentSentenceIndex := None\<rparr>)
   \<and> handleSentenceClick examplePlaying (- 1) =
       Inr (examplePlaying\<lparr>speechSynthesis :=
              \<lparr>speaking = False, paused = False, voices = 1, queue = []\<rparr>,
            isPlaying := False, currentSentenceIndex := None,
            timeouts := [\<lparr>ttext = js ''Bye'', tindex = - 1, tsentences = exampleSentences\<rparr>]\<rparr>)"
  by (simp add: Playing_def examplePlaying_def exampleSentences_def handleSentenceClick_def Let_def
      synth_cancel_def textToRead_def sliceFrom_def trim_def js_def isWhiteSpace_def)

text \<open>
  C2, as the code has it: with the engine there and the current index, if set, valid, a
  click with an index out of range cancels the engine when it is speaking and leaves
  the state Idle with no current index; the listeners, \<open>utteranceRef\<close> and the error
  stay. For an index at or beyond the number of sentences the text to read is empty and
  no narration request is issued. For a negative index \<open>slice\<close> counts from the end, and
  a request for those last sentences is scheduled unless their text is blank.
\<close>

theorem seek_out_of_range:
  assumes "i < 0 \<or> int (length (sentences s)) \<le> i" and "indexValid s"
    and "speechSynthesisInWindow s"
  shows "\<exists>s'. handleSentenceClick s i = Inr s'
     \<and> Idle s'
     \<and> speechSynthesis s' =
          (if speaking (speechSynthesis s) then synth_cancel (speechSynthesis s)
           else speechSynthesis s)
     \<and> voicesChangedListeners s' = voicesChangedListeners s
     \<and> utteranceRef s' = utteranceRef s
     \<and> error s' = error s
     \<and> timeouts s' =
          (if textToRead (sentences s) i = [] then timeouts s
           else timeouts s @ [\<lparr>ttext = textToRead (sentences s) i, tindex = i,
                                tsentences = sentences s\<rparr>])
     \<and> textToRead (sentences s) i =
          (if i < 0
           then trim (joinSp (map text' (drop (length (sentences s) - nat (- i)) (sentences s))))
           else [])"
proof -
  from assms(1,2) have c: "currentSentenceIndex s \<noteq> Some i"
    by (auto simp: indexValid_def)
  have t: "textToRead (sentences s) i =
          (if i < 0
           then trim (joinSp (map text' (drop (length (sentences s) - nat (- i)) (sentences s))))
           else [])"
  proof (cases "i < 0")
    case True
    then show ?thesis by (simp add: textToRead_def sliceFrom_negative)
  next
    case False
    with assms(1) show ?thesis by (simp add: textToRead_beyond)
  qed
  show ?thesis
  proof (cases "textToRead (sentences s) i = []")
    case True
    with c assms(3) t show ?thesis
      by (simp add: handleSentenceClick_def Let_def Idle_def)
  next
    case False
    with c assms(3) t show ?thesis
      by (simp add: handleSentenceClick_def Let_def Idle_def)
  qed
qed

theorem seek_out_of_range_witness:
  "((5::int) < 0 \<or> int (length (sentences examplePlaying)) \<le> 5)
   \<and> ((- 1::int) < 0 \<or> int (length (sentences examplePlaying)) \<le> - 1)
   \<and> indexValid examplePlaying \<and> speechSynthesisInWindow examplePlaying
   \<and> (\<exists>s'. handleSentenceClick examplePlaying 5 = Inr s' \<and> Idle s'
          \<and> queue (speechSynthesis s') = [] \<and> timeouts s' = [])
   \<and> (\<exists>s'. handleSentenceClick examplePlaying (- 1) = Inr s' \<and> Idle s'
          \<and> queue (speechSynthesis s') = []
          \<and> timeouts s' = [\<lparr>ttext = js ''Bye'', tindex = - 1, tsentences = exampleSentences\<rparr>])"
proof -
  have h1: "(5::int) < 0 \<or> int (length (sentences examplePlaying)) \<le> 5"
    by (simp add: examplePlaying_def exampleSentences_def)
  have h1': "(- 1::int) < 0 \<or> int (length (sentences examplePlaying)) \<le> - 1" by simp
  have h2: "indexValid examplePlaying"
    by (simp add: indexValid_def examplePlaying_def exampleSentences_def)
  have h3: "speechSynthesisInWindow examplePlaying" by (simp add: examplePlaying_def)
  have f: "speaking (speechSynthesis examplePlaying)" "timeouts examplePlaying = []"
    "sentences examplePlaying = exampleSentences"
    by (simp_all add: examplePlaying_def)
  have t5: "textToRead exampleSentences 5 = []"
    by (simp add: textToRead_beyond exampleSentences_def)
  have t1: "textToRead exampleSentences (- 1) = js ''Bye''"
    by (simp add: textToRead_def sliceFrom_def exampleSentences_def trim_def js_def isWhiteSpace_def)
  have n: "js ''Bye'' \<noteq> []" by (simp add: js_def)
  from seek_out_of_range [OF h1 h2 h3]
  obtain a where a: "handleSentenceClick examplePlaying 5 = Inr a" "Idle a"
    "speechSynthesis a = synth_cancel (speechSynthesis examplePlaying)" "timeouts a = []"
    using f t5 by auto
  from seek_out_of_range [OF h1' h2 h3]
  obtain b where b: "handleSentenceClick examplePlaying (- 1) = Inr b" "Idle b"
    "speechSynthesis b = synth_cancel (speechSynthesis examplePlaying)"
    "timeouts b = [\<lparr>ttext = js ''Bye'', tindex = - 1, tsentences = exampleSentences\<rparr>]"
    using f t1 n by auto
  from a b h1 h2 h3 show ?thesis by (auto simp: synth_cancel_def)
qed

text \<open>
  C9. After the end callback the state is Idle with no current index, and \<open>handlePlay\<close>
  then issues a fresh narration request from sentence 0. Its utterance has as text the
  texts of all sentences joined with single spaces (the cleaned document, not empty),
  starts from index 0, and its table gives for every sentence \<open>k\<close> the index \<open>k\<close> and the
  offset of that sentence's text in the joined text (the length of the first \<open>k\<close> texts
  joined, and one more for the space when \<open>k > 0\<close>). With voices loaded the engine is
  cancelled and holds exactly this utterance; without voices the utterance waits for
  \<open>voiceschanged\<close>, after which the engine holds exactly it. The sentences are those of
  a segmented document, not empty, and the browser has the engine.
\<close>

theorem play_after_end:
  assumes "sentences s = splitIntoSentences doc" and "sentences s \<noteq> []"
    and "speechSynthesisInWindow s"
  shows "Idle (onend s)
   \<and> joinSp (map text' (sentences s)) = normalize doc \<and> normalize doc \<noteq> []
   \<and> (let u = \<lparr>utext = joinSp (map text' (sentences s)), lang = ''en-US'', rate = 1, pitch = 1,
                 startFrom = 0,
                 sentenceStartIndices =
                   map (\<lambda>k. \<lparr>index = int k,
                              charStart = length (joinSp (map text' (take k (sentences s))))
                                          + (if k = 0 then 0 else 1)\<rparr>)
                     [0..<length (sentences s)]\<rparr>
       in \<exists>s'. handlePlay (onend s) = Inr s'
            \<and> Idle s'
            \<and> utteranceRef s' = Some u
            \<and> (if voices (speechSynthesis s) = 0
                then voicesChangedListeners s' = voicesChangedListeners s @ [u]
                   \<and> queue (speechSynthesis s') = queue (speechSynthesis s)
                   \<and> queue (speechSynthesis (voiceschanged s')) = [u]
                else voicesChangedListeners s' = voicesChangedListeners s
                   \<and> queue (speechSynthesis s') = [u]))"
proof -
  from assms(1,2) have ne: "normalize doc \<noteq> []" by (simp add: split_nonempty)
  have j: "joinSp (map text' (sentences s)) = normalize doc"
    by (simp add: assms(1) split_joined)
  have t: "textToRead (sentences s) 0 = normalize doc"
    by (simp add: assms(1) textToRead_split)
  have u: "newUtterance (sentences s) (normalize doc) 0 =
             \<lparr>utext = normalize doc, lang = ''en-US'', rate = 1, pitch = 1, startFrom = 0,
              sentenceStartIndices =
                map (\<lambda>k. \<lparr>index = int k,
                           charStart = length (joinSp (map text' (take k (sentences s))))
                                       + (if k = 0 then 0 else 1)\<rparr>)
                  [0..<length (sentences s)]\<rparr>"
    by (simp add: newUtterance_def sliceFrom_def startIndices_table)
  have hp: "handlePlay (onend s) = Inr (startNarration (sentences s) (normalize doc) 0 (onend s))"
    using assms(2,3) ne t by (simp add: handlePlay_def onend_def Let_def)
  have idle: "Idle (onend s)" by (simp add: Idle_def onend_def)
  have rest: "\<exists>s'. handlePlay (onend s) = Inr s'
            \<and> Idle s'
            \<and> utteranceRef s' = Some (newUtterance (sentences s) (normalize doc) 0)
            \<and> (if voices (speechSynthesis s) = 0
                then voicesChangedListeners s' = voicesChangedListeners s @ [newUtterance (sentences s) (normalize doc) 0]
                   \<and> queue (speechSynthesis s') = queue (speechSynthesis s)
                   \<and> queue (speechSynthesis (voiceschanged s')) = [newUtterance (sentences s) (normalize doc) 0]
                else voicesChangedListeners s' = voicesChangedListeners s
                   \<and> queue (speechSynthesis s') = [newUtterance (sentences s) (normalize doc) 0])"
    unfolding hp using assms(3)
    by (simp add: Let_def Idle_def onend_def startNarration_def speakWhenReady_def
        cancelAndSpeak_def synth_speak_def synth_cancel_def voiceschanged_def)
  show ?thesis
    unfolding Let_def j using idle ne rest [unfolded u] by simp
qed

theorem play_after_end_witness:
  "sentences exampleEnding = splitIntoSentences exampleDoc \<and> sentences exampleEnding \<noteq> []
   \<and> speechSynthesisInWindow exampleEnding
   \<and> Playing exampleEnding \<and> currentSentenceIndex exampleEnding = Some 1
   \<and> utteranceRef exampleEnding = None \<and> queue (speechSynthesis exampleEnding) = []
   \<and> Idle (onend exampleEnding)
   \<and> (\<exists>s'. handlePlay (onend exampleEnding) = Inr s'
         \<and> utteranceRef s' =
              Some \<lparr>utext = js ''Hi there. Bye'', lang = ''en-US'', rate = 1, pitch = 1,
                    startFrom = 0,
                    sentenceStartIndices =
                      [\<lparr>index = 0, charStart = 0\<rparr>, \<lparr>index = 1, charStart = 10\<rparr>]\<rparr>
         \<and> queue (speechSynthesis s') =
              [\<lparr>utext = js ''Hi there. Bye'', lang = ''en-US'', rate = 1, pitch = 1,
                startFrom = 0,
                sentenceStartIndices =
                  [\<lparr>index = 0, charStart = 0\<rparr>, \<lparr>index = 1, charStart = 10\<rparr>]\<rparr>])"
proof -
  have h1: "sentences exampleEnding = splitIntoSentences exampleDoc"
    by (simp add: example_split exampleEnding_def)
  have h2: "sentences exampleEnding \<noteq> []"
    by (simp add: exampleEnding_def exampleSentences_def)
  have h3: "speechSynthesisInWindow exampleEnding" by (simp add: exampleEnding_def)
  have f: "Playing exampleEnding" "currentSentenceIndex exampleEnding = Some 1"
    "utteranceRef exampleEnding = None" "queue (speechSynthesis exampleEnding) = []"
    "voices (speechSynthesis exampleEnding) \<noteq> 0"
    by (simp_all add: exampleEnding_def Playing_def)
  have s: "sentences exampleEnding = exampleSentences" by (simp add: exampleEnding_def)
  have tbl: "map (\<lambda>k. \<lparr>index = int k,
                       charStart = length (joinSp (map text' (take k exampleSentences)))
                                   + (if k = 0 then 0 else 1)\<rparr>)
               [0..<length exampleSentences]
             = [\<lparr>index = 0, charStart = 0\<rparr>, \<lparr>index = 1, charStart = 10\<rparr>]"
    by (simp add: exampleSentences_def js_def upt_rec)
  have jt: "joinSp (map text' exampleSentences) = js ''Hi there. Bye''"
    by (simp add: exampleSentences_def js_def SPACE_def)
  note t = play_after_end [OF h1 h2 h3, unfolded Let_def s tbl jt]
  from t f(5) obtain s' where "handlePlay (onend exampleEnding) = Inr s'"
    "utteranceRef s' =
              Some \<lparr>utext = js ''Hi there. Bye'', lang = ''en-US'', rate = 1, pitch = 1,
                    startFrom = 0,
                    sentenceStartIndices =
                      [\<lparr>index = 0, charStart = 0\<rparr>, \<lparr>index = 1, charStart = 10\<rparr>]\<rparr>"
    "queue (speechSynthesis s') =
              [\<lparr>utext = js ''Hi there. Bye'', lang = ''en-US'', rate = 1, pitch = 1,
                startFrom = 0,
                sentenceStartIndices =
                  [\<lparr>index = 0, charStart = 0\<rparr>, \<lparr>index = 1, charStart = 10\<rparr>]\<rparr>]"
    by auto
  moreover from t have "Idle (onend exampleEnding)" by simp
  ultimately show ?thesis using h1 h2 h3 f by blast
qed

end
